theory Spec2Isabelle
  imports Main "HOL-Library.Word"
begin

section \<open>Strings of the JavaScript runtime\<close>

text \<open>
  A JavaScript string is a finite sequence of 16-bit code units. The Greek letter
  lambda is the single code unit 955. ASCII literals are written through \<open>js\<close>.
\<close>

type_synonym code_unit = "16 word"
type_synonym jsstring = "code_unit list"

definition js :: "string \<Rightarrow> jsstring" where
  "js s = map (\<lambda>c. of_nat (of_char c)) s"

definition lambda_sym :: code_unit where
  "lambda_sym = 955"

text \<open>
  \<open>String.prototype.trim\<close> removes the WhiteSpace and LineTerminator code points
  from both ends.
\<close>

definition is_white_space :: "code_unit \<Rightarrow> bool" where
  "is_white_space c =
     (let n = unat c in
      n = 9 \<or> n = 10 \<or> n = 11 \<or> n = 12 \<or> n = 13 \<or> n = 32 \<or> n = 160 \<or> n = 5760
      \<or> (8192 \<le> n \<and> n \<le> 8202) \<or> n = 8232 \<or> n = 8233 \<or> n = 8239 \<or> n = 8287
      \<or> n = 12288 \<or> n = 65279)"

definition trim :: "jsstring \<Rightarrow> jsstring" where
  "trim s = rev (dropWhile is_white_space (rev (dropWhile is_white_space s)))"

section \<open>The regular expression \<open>\bname\b\<close> with the flag g\<close>

text \<open>
  Without the flags u and i, the word characters of \<open>\b\<close> are a-z, A-Z, 0-9 and _.
\<close>

definition is_word_char :: "code_unit \<Rightarrow> bool" where
  "is_word_char c =
     (let n = unat c in
      (97 \<le> n \<and> n \<le> 122) \<or> (65 \<le> n \<and> n \<le> 90) \<or> (48 \<le> n \<and> n \<le> 57) \<or> n = 95)"

text \<open>
  The syntax characters of a pattern: \<open>^ $ \ . * + ? ( ) [ ] { } |\<close>. Every other code
  unit in a pattern source matches itself.
\<close>

definition is_syntax_char :: "code_unit \<Rightarrow> bool" where
  "is_syntax_char c =
     (let n = unat c in
      n = 94 \<or> n = 36 \<or> n = 92 \<or> n = 46 \<or> n = 42 \<or> n = 43 \<or> n = 63 \<or> n = 40 \<or> n = 41
      \<or> n = 91 \<or> n = 93 \<or> n = 123 \<or> n = 125 \<or> n = 124)"

definition literal_source :: "jsstring \<Rightarrow> bool" where
  "literal_source name = list_all (\<lambda>c. \<not> is_syntax_char c) name"

text \<open>
  A position of the subject string is given by the reversed text before it and the
  text from it on. \<open>\b\<close> holds where exactly one of the two neighbouring code units
  is a word character; a string edge counts as a non-word character.
\<close>

fun word_char_at :: "jsstring \<Rightarrow> bool" where
  "word_char_at [] = False"
| "word_char_at (c # cs) = is_word_char c"

definition is_boundary :: "jsstring \<Rightarrow> jsstring \<Rightarrow> bool" where
  "is_boundary pre rest = (word_char_at pre \<noteq> word_char_at rest)"

definition matches_at :: "jsstring \<Rightarrow> jsstring \<Rightarrow> jsstring \<Rightarrow> bool" where
  "matches_at name pre rest =
     (is_boundary pre rest \<and> take (length name) rest = name
      \<and> is_boundary (rev name @ pre) (drop (length name) rest))"

text \<open>
  GetSubstitution for a pattern without capture groups: in the replacement text
  \<open>$$\<close> stands for a dollar sign, \<open>$&\<close> for the match, \<open>$`\<close> for the subject before
  the match and \<open>$'\<close> for the subject after it; anything else is copied.
\<close>

fun get_substitution :: "jsstring \<Rightarrow> jsstring \<Rightarrow> jsstring \<Rightarrow> jsstring \<Rightarrow> jsstring" where
  "get_substitution matched before after [] = []"
| "get_substitution matched before after [c] = [c]"
| "get_substitution matched before after (c # d # r) =
     (if c = 36 then
        (if d = 36 then 36 # get_substitution matched before after r
         else if d = 38 then matched @ get_substitution matched before after r
         else if d = 96 then before @ get_substitution matched before after r
         else if d = 39 then after @ get_substitution matched before after r
         else c # get_substitution matched before after (d # r))
      else c # get_substitution matched before after (d # r))"

text \<open>
  \<open>String.prototype.replace\<close> with a global pattern: the matches are looked for from
  left to right, each search starting where the last match ended (one code unit
  further after an empty match); the text between matches is copied.
\<close>

function replace_scan :: "jsstring \<Rightarrow> jsstring \<Rightarrow> jsstring \<Rightarrow> jsstring \<Rightarrow> jsstring" where
  "replace_scan name value pre rest =
     (if matches_at name pre rest then
        get_substitution name (rev pre) (drop (length name) rest) value @
        (if name = [] then
           (case rest of [] \<Rightarrow> [] | c # cs \<Rightarrow> c # replace_scan name value (c # pre) cs)
         else replace_scan name value (rev name @ pre) (drop (length name) rest))
      else
        (case rest of [] \<Rightarrow> [] | c # cs \<Rightarrow> c # replace_scan name value (c # pre) cs))"
  by pat_completeness auto
termination
proof (relation "measure (\<lambda>(name, value, pre, rest). length rest)")
  fix name v pre rest :: jsstring
  assume m: "matches_at name pre rest" and ne: "name \<noteq> []"
  from m have "take (length name) rest = name" by (simp add: matches_at_def)
  with ne have "rest \<noteq> []" by auto
  with ne show "((name, v, rev name @ pre, drop (length name) rest), (name, v, pre, rest))
      \<in> measure (\<lambda>(name, value, pre, rest). length rest)"
    by simp
qed auto

declare replace_scan.simps [simp del]

text \<open>
  The reading of \<open>\bname\b\<close> in words: the subject is cut into tokens, the maximal
  runs of word characters and the maximal runs of other code units, so that a token of
  word characters is bounded by other code units or by the string edges; every token
  equal to the name is replaced by the value.
\<close>

function tokens :: "jsstring \<Rightarrow> jsstring list" where
  "tokens s =
     (if s = [] then []
      else if word_char_at s
        then takeWhile is_word_char s # tokens (dropWhile is_word_char s)
        else takeWhile (\<lambda>c. \<not> is_word_char c) s # tokens (dropWhile (\<lambda>c. \<not> is_word_char c) s))"
  by pat_completeness auto
termination
proof (relation "measure length")
  fix s :: jsstring
  assume "s \<noteq> []" "word_char_at s"
  then show "(dropWhile is_word_char s, s) \<in> measure length"
    by (cases s) (simp_all add: le_imp_less_Suc length_dropWhile_le)
next
  fix s :: jsstring
  assume "s \<noteq> []" "\<not> word_char_at s"
  then show "(dropWhile (\<lambda>c. \<not> is_word_char c) s, s) \<in> measure length"
    by (cases s) (simp_all add: le_imp_less_Suc length_dropWhile_le)
qed simp

declare tokens.simps [simp del]

definition replace_tokens :: "jsstring \<Rightarrow> jsstring \<Rightarrow> jsstring \<Rightarrow> jsstring" where
  "replace_tokens name value s = concat (map (\<lambda>t. if t = name then value else t) (tokens s))"

text \<open>
  The same with the \<open>$\<close> patterns of the value: \<open>before\<close> is the subject up to the
  token at hand.
\<close>

fun replace_tokens_at :: "jsstring \<Rightarrow> jsstring \<Rightarrow> jsstring \<Rightarrow> jsstring list \<Rightarrow> jsstring" where
  "replace_tokens_at name value before [] = []"
| "replace_tokens_at name value before (t # ts) =
     (if t = name then get_substitution name before (concat ts) value else t)
     @ replace_tokens_at name value (before @ t) ts"

text \<open>
  A value thrown by the runtime, kept as the string that \<open>"Error: " + err\<close> makes of it.
\<close>

datatype thrown = Thrown jsstring

fun to_string :: "thrown \<Rightarrow> jsstring" where
  "to_string (Thrown t) = t"

text \<open>
  The name is spliced into the pattern source as it is. A name without syntax
  characters is a pattern that matches itself, and \<open>replace_scan\<close> is what
  \<open>result.replace(regex, value)\<close> computes. For any other name the outcome is that of
  the runtime's regular expression engine, a parameter here: it takes the name, the
  replacement and the subject, and either throws (a SyntaxError of \<open>new RegExp\<close>)
  or returns the new string.
\<close>

type_synonym regexp_engine = "jsstring \<Rightarrow> jsstring \<Rightarrow> jsstring \<Rightarrow> thrown + jsstring"

definition replace_word :: "regexp_engine \<Rightarrow> jsstring \<Rightarrow> jsstring \<Rightarrow> jsstring \<Rightarrow> thrown + jsstring" where
  "replace_word rx name value result =
     (if literal_source name then Inr (replace_scan name value [] result)
      else rx name value result)"

section \<open>Objects with string keys\<close>

text \<open>
  An object is given by its own properties in the order in which \<open>Object.entries\<close>,
  the spread syntax and \<open>JSON.stringify\<close> visit them: first the keys that are array
  indices (canonical decimal numerals below \<open>2^32 - 1\<close>) in ascending numeric order,
  then all other keys in the order of their creation.
\<close>

type_synonym js_object = "(jsstring \<times> jsstring) list"

definition is_digit :: "code_unit \<Rightarrow> bool" where
  "is_digit c = (48 \<le> unat c \<and> unat c \<le> 57)"

definition dec_value :: "jsstring \<Rightarrow> nat" where
  "dec_value k = foldl (\<lambda>a c. 10 * a + (unat c - 48)) 0 k"

fun to_decimal :: "nat \<Rightarrow> jsstring" where
  "to_decimal n =
     (if n < 10 then [of_nat (48 + n)]
      else to_decimal (n div 10) @ [of_nat (48 + n mod 10)])"

declare to_decimal.simps [simp del]

text \<open>
  A key is an array index when it is the decimal numeral, as \<open>ToString\<close> writes it,
  of a number below \<open>2^32 - 1\<close>.
\<close>

definition array_index :: "jsstring \<Rightarrow> nat option" where
  "array_index k =
     (if k \<noteq> [] \<and> list_all is_digit k \<and> dec_value k < 4294967295
         \<and> to_decimal (dec_value k) = k
      then Some (dec_value k) else None)"

definition has_key :: "jsstring \<Rightarrow> js_object \<Rightarrow> bool" where
  "has_key k obj = (k \<in> set (map fst obj))"

fun insert_index :: "nat \<Rightarrow> jsstring \<Rightarrow> jsstring \<Rightarrow> js_object \<Rightarrow> js_object" where
  "insert_index n k v [] = [(k, v)]"
| "insert_index n k v ((k', v') # r) =
     (case array_index k' of
        Some m \<Rightarrow> if m < n then (k', v') # insert_index n k v r else (k, v) # (k', v') # r
      | None \<Rightarrow> (k, v) # (k', v') # r)"

text \<open>Defining a property: an existing key keeps its place, a new key is created.\<close>

definition obj_set :: "jsstring \<Rightarrow> jsstring \<Rightarrow> js_object \<Rightarrow> js_object" where
  "obj_set k v obj =
     (if has_key k obj then map (\<lambda>(k', v'). if k' = k then (k', v) else (k', v')) obj
      else case array_index k of
             None \<Rightarrow> obj @ [(k, v)]
           | Some n \<Rightarrow> insert_index n k v obj)"

definition obj_delete :: "jsstring \<Rightarrow> js_object \<Rightarrow> js_object" where
  "obj_delete k obj = filter (\<lambda>(k', v'). k' \<noteq> k) obj"

text \<open>\<open>{ ...obj }\<close>: a fresh object that receives the properties of \<open>obj\<close> one by one.\<close>

definition spread :: "js_object \<Rightarrow> js_object" where
  "spread obj = foldl (\<lambda>acc (k, v). obj_set k v acc) [] obj"

definition object_entries :: "js_object \<Rightarrow> (jsstring \<times> jsstring) list" where
  "object_entries obj = obj"

text \<open>
  The lists that are the entries of some object: no key twice, every array index
  before every other key, and the array indices ascending.
\<close>

definition key_before :: "jsstring \<Rightarrow> jsstring \<Rightarrow> bool" where
  "key_before k k' =
     (case array_index k' of
        None \<Rightarrow> True
      | Some n' \<Rightarrow> (case array_index k of None \<Rightarrow> False | Some n \<Rightarrow> n < n'))"

definition wf_object :: "js_object \<Rightarrow> bool" where
  "wf_object obj = (distinct (map fst obj) \<and> sorted_wrt key_before (map fst obj))"

section \<open>The component state and its handlers\<close>

text \<open>
  The component keeps its state in \<open>useState\<close> cells. A handler reads the cells of the
  current render and queues new values, each cell at most once, so a handler is a
  function from the state to the next state. \<open>console.error\<close> and the effect that
  writes a non-empty library to \<open>localStorage\<close> change none of the cells.
\<close>

record reduction_step =
  step_from :: jsstring
  step_to :: jsstring

record app_state =
  expression :: jsstring
  error :: "jsstring option"
  loading :: bool
  savedExpressions :: js_object
  newExpressionName :: jsstring
  newExpressionValue :: jsstring
  history :: "reduction_step list"

text \<open>
  The state after \<open>useState\<close>: the default expression is \<open>(\<lambda>x.x) y\<close>.
\<close>

definition initial_state :: app_state where
  "initial_state =
     \<lparr>expression = js ''('' @ [lambda_sym] @ js ''x.x) y'', error = None, loading = True,
      savedExpressions = [], newExpressionName = [], newExpressionValue = [], history = []\<rparr>"

text \<open>
  The effect that runs once after mounting: when the WASM module is there, \<open>loading\<close>
  is switched off and a library found in \<open>localStorage\<close> is taken over; when it is
  not, the message slot reports it. \<open>ready_state\<close> is the state in which the handlers
  are first offered, with nothing stored.
\<close>

definition init_succeeded :: "js_object option \<Rightarrow> app_state \<Rightarrow> app_state" where
  "init_succeeded saved s =
     (case saved of
        None \<Rightarrow> s\<lparr>loading := False\<rparr>
      | Some obj \<Rightarrow> s\<lparr>loading := False, savedExpressions := obj\<rparr>)"

definition init_failed :: "jsstring \<Rightarrow> app_state \<Rightarrow> app_state" where
  "init_failed message s =
     s\<lparr>error := Some (js ''Failed to initialize WASM module: '' @ message)\<rparr>"

definition ready_state :: app_state where
  "ready_state = init_succeeded None initial_state"

text \<open>
  \<open>replaceNamedExpressions\<close>: the \<open>forEach\<close> over \<open>Object.entries(savedExpressions)\<close>
  rewrites \<open>result\<close> entry by entry; a throw ends it.
\<close>

fun replace_entries :: "regexp_engine \<Rightarrow> (jsstring \<times> jsstring) list \<Rightarrow> jsstring \<Rightarrow> thrown + jsstring" where
  "replace_entries rx [] result = Inr result"
| "replace_entries rx ((name, value) # es) result =
     (case replace_word rx name value result of
        Inl err \<Rightarrow> Inl err
      | Inr result' \<Rightarrow> replace_entries rx es result')"

definition replaceNamedExpressions :: "regexp_engine \<Rightarrow> js_object \<Rightarrow> jsstring \<Rightarrow> thrown + jsstring" where
  "replaceNamedExpressions rx saved expr = replace_entries rx (object_entries saved) expr"

text \<open>
  \<open>handleBetaReduce\<close>: the imported \<open>next_beta_reduction_wasm\<close> is a parameter; it
  returns a string or throws. A throw of either call ends in the \<open>catch\<close> block.
\<close>

definition handleBetaReduce :: "regexp_engine \<Rightarrow> (jsstring \<Rightarrow> thrown + jsstring) \<Rightarrow> app_state \<Rightarrow> app_state" where
  "handleBetaReduce rx next_beta_reduction_wasm s =
     (case replaceNamedExpressions rx (savedExpressions s) (expression s) of
        Inl err \<Rightarrow> s\<lparr>error := Some (js ''Error: '' @ to_string err)\<rparr>
      | Inr replacedExpression \<Rightarrow>
          (case next_beta_reduction_wasm replacedExpression of
             Inl err \<Rightarrow> s\<lparr>error := Some (js ''Error: '' @ to_string err)\<rparr>
           | Inr result \<Rightarrow>
               if result = expression s
               then s\<lparr>error := Some (js ''No further reduction possible.'')\<rparr>
               else s\<lparr>history := history s @ [\<lparr>step_from = expression s, step_to = result\<rparr>],
                      expression := result, error := None\<rparr>))"

definition saveExpression :: "app_state \<Rightarrow> app_state" where
  "saveExpression s =
     (if trim (newExpressionName s) = [] \<or> trim (newExpressionValue s) = []
      then s\<lparr>error := Some (js ''Both name and expression are required'')\<rparr>
      else s\<lparr>savedExpressions :=
                obj_set (trim (newExpressionName s)) (trim (newExpressionValue s))
                  (spread (savedExpressions s)),
              newExpressionName := [], newExpressionValue := [], error := None\<rparr>)"

definition deleteExpression :: "jsstring \<Rightarrow> app_state \<Rightarrow> app_state" where
  "deleteExpression name s =
     s\<lparr>savedExpressions := obj_delete name (spread (savedExpressions s))\<rparr>"

definition applyExpression :: "jsstring \<Rightarrow> app_state \<Rightarrow> app_state" where
  "applyExpression expr s = s\<lparr>expression := expr\<rparr>"

definition clearHistory :: "app_state \<Rightarrow> app_state" where
  "clearHistory s = s\<lparr>history := []\<rparr>"

text \<open>
  The states the component can be in: from the first render on, by the effect after
  mounting (a stored library is whatever \<open>JSON.parse\<close> returns, an object), by typing
  into the three inputs and by the five handlers.
\<close>

inductive reachable :: "regexp_engine \<Rightarrow> (jsstring \<Rightarrow> thrown + jsstring) \<Rightarrow> app_state \<Rightarrow> bool"
  for rx :: regexp_engine and reduce :: "jsstring \<Rightarrow> thrown + jsstring" where
  first_render: "reachable rx reduce initial_state"
| wasm_ready: "reachable rx reduce s \<Longrightarrow> reachable rx reduce (init_succeeded None s)"
| wasm_ready_stored:
    "reachable rx reduce s \<Longrightarrow> wf_object obj \<Longrightarrow> reachable rx reduce (init_succeeded (Some obj) s)"
| wasm_failed: "reachable rx reduce s \<Longrightarrow> reachable rx reduce (init_failed message s)"
| type_expression: "reachable rx reduce s \<Longrightarrow> reachable rx reduce (s\<lparr>expression := e\<rparr>)"
| type_name: "reachable rx reduce s \<Longrightarrow> reachable rx reduce (s\<lparr>newExpressionName := n\<rparr>)"
| type_value: "reachable rx reduce s \<Longrightarrow> reachable rx reduce (s\<lparr>newExpressionValue := v\<rparr>)"
| by_reduce: "reachable rx reduce s \<Longrightarrow> reachable rx reduce (handleBetaReduce rx reduce s)"
| by_save: "reachable rx reduce s \<Longrightarrow> reachable rx reduce (saveExpression s)"
| by_delete: "reachable rx reduce s \<Longrightarrow> reachable rx reduce (deleteExpression name s)"
| by_apply: "reachable rx reduce s \<Longrightarrow> reachable rx reduce (applyExpression expr s)"
| by_clear: "reachable rx reduce s \<Longrightarrow> reachable rx reduce (clearHistory s)"

text \<open>
  Stand-ins for the two collaborators at concrete inputs: an engine that rejects every
  pattern it is asked about, an oracle that finds no redex, an oracle that always
  answers \<open>y\<close>, and an oracle that throws.
\<close>

definition rejecting_engine :: regexp_engine where
  "rejecting_engine name value subject = Inl (Thrown (js ''SyntaxError: Invalid regular expression''))"

definition no_redex :: "jsstring \<Rightarrow> thrown + jsstring" where
  "no_redex e = Inr e"

definition answers_y :: "jsstring \<Rightarrow> thrown + jsstring" where
  "answers_y e = Inr (js ''y'')"

definition throwing_oracle :: "jsstring \<Rightarrow> thrown + jsstring" where
  "throwing_oracle e = Inl (Thrown (js ''unreachable''))"

section \<open>Objects: order and uniqueness of the keys\<close>

lemma array_index_inj: "array_index k = Some n \<Longrightarrow> array_index k' = Some n \<Longrightarrow> k = k'"
  by (metis array_index_def option.distinct(1) option.inject)

lemma fst_update: "fst \<circ> (\<lambda>(k', v'). if k' = k then (k', v) else (k', v')) = fst"
  by (auto simp: fun_eq_iff)

lemma map_fst_update:
  "map fst (map (\<lambda>(k', v'). if k' = k then (k', v) else (k', v')) obj) = map fst obj"
  by (simp add: fst_update)

lemma filter_absent: "k \<notin> set (map fst obj) \<Longrightarrow> filter (\<lambda>(k', v'). k' \<noteq> k) obj = obj"
  by (induction obj) auto

lemma insert_index_split:
  "insert_index n k v obj =
     takeWhile (\<lambda>(k', v'). case array_index k' of Some m \<Rightarrow> m < n | None \<Rightarrow> False) obj
     @ (k, v) # dropWhile (\<lambda>(k', v'). case array_index k' of Some m \<Rightarrow> m < n | None \<Rightarrow> False) obj"
  by (induction obj) (auto split: option.splits)

lemma set_insert_index: "set (insert_index n k v obj) = insert (k, v) (set obj)"
  by (induction obj) (auto split: option.splits if_splits)

lemma filter_insert_index:
  "k \<notin> set (map fst obj) \<Longrightarrow> filter (\<lambda>(k', v'). k' \<noteq> k) (insert_index n k v obj) = obj"
  by (induction obj) (auto simp: filter_absent split: option.splits)

lemma distinct_insert_index:
  "k \<notin> set (map fst obj) \<Longrightarrow> distinct (map fst obj) \<Longrightarrow> distinct (map fst (insert_index n k v obj))"
  by (induction obj) (auto simp: set_insert_index split: option.splits)

lemma key_before_trans: "key_before a b \<Longrightarrow> key_before b c \<Longrightarrow> key_before a c"
  by (auto simp: key_before_def split: option.splits)

lemma sorted_insert_index:
  "array_index k = Some n \<Longrightarrow> k \<notin> set (map fst obj) \<Longrightarrow> sorted_wrt key_before (map fst obj) \<Longrightarrow>
   sorted_wrt key_before (map fst (insert_index n k v obj))"
proof (induction obj)
  case Nil
  then show ?case by simp
next
  case (Cons e obj)
  obtain k' v' where e: "e = (k', v')" by (cases e)
  from Cons.prems have nk: "k \<noteq> k'" and notin: "k \<notin> set (map fst obj)"
    and s: "sorted_wrt key_before (map fst obj)"
    and all: "\<forall>x \<in> set (map fst obj). key_before k' x"
    by (auto simp: e)
  show ?case
  proof (cases "array_index k'")
    case None
    then have "\<forall>x \<in> set (map fst obj). key_before k x"
      using all by (auto simp: key_before_def split: option.splits)
    moreover from None have "key_before k k'"
      by (simp add: key_before_def)
    ultimately show ?thesis
      using None s all by (simp add: e)
  next
    case (Some m)
    show ?thesis
    proof (cases "m < n")
      case True
      have "sorted_wrt key_before (map fst (insert_index n k v obj))"
        using Cons.IH [OF Cons.prems(1) notin s] .
      moreover have "key_before k' k"
        using Some True Cons.prems(1) by (simp add: key_before_def)
      ultimately show ?thesis
        using Some True all by (auto simp: e set_insert_index)
    next
      case False
      have "m \<noteq> n"
        using array_index_inj [OF Some] Cons.prems(1) nk by auto
      with False have lt: "n < m" by simp
      then have kk: "key_before k k'"
        using Some Cons.prems(1) by (simp add: key_before_def)
      then have "\<forall>x \<in> set (map fst obj). key_before k x"
        using all key_before_trans by blast
      with Some False kk s all show ?thesis
        by (simp add: e)
    qed
  qed
qed

lemma keys_obj_set: "set (map fst (obj_set k v obj)) = insert k (set (map fst obj))"
proof (cases "has_key k obj")
  case True
  then show ?thesis
    by (auto simp: obj_set_def fst_update has_key_def)
next
  case False
  then show ?thesis
    by (cases "array_index k") (auto simp: obj_set_def set_insert_index)
qed

lemma wf_obj_set: "wf_object obj \<Longrightarrow> wf_object (obj_set k v obj)"
proof (cases "has_key k obj")
  case True
  assume "wf_object obj"
  with True show ?thesis
    by (simp add: wf_object_def obj_set_def fst_update)
next
  case False
  assume wf: "wf_object obj"
  show ?thesis
  proof (cases "array_index k")
    case None
    with False wf show ?thesis
      by (auto simp: wf_object_def obj_set_def has_key_def sorted_wrt_append key_before_def)
  next
    case (Some n)
    with False wf show ?thesis
      by (simp add: wf_object_def obj_set_def has_key_def distinct_insert_index sorted_insert_index)
  qed
qed

lemma wf_foldl_obj_set:
  "wf_object acc \<Longrightarrow> wf_object (foldl (\<lambda>acc (k, v). obj_set k v acc) acc obj)"
  by (induction obj arbitrary: acc) (auto simp: wf_obj_set)

lemma wf_spread: "wf_object (spread obj)"
proof -
  have "wf_object []" by (simp add: wf_object_def)
  then show ?thesis unfolding spread_def by (rule wf_foldl_obj_set)
qed

lemma insert_index_append:
  "\<forall>k' \<in> set (map fst acc). key_before k' k \<Longrightarrow> array_index k = Some n \<Longrightarrow>
   insert_index n k v acc = acc @ [(k, v)]"
  by (induction acc) (auto simp: key_before_def split: option.splits)

lemma obj_set_append:
  assumes "wf_object (acc @ [(k, v)])"
  shows "obj_set k v acc = acc @ [(k, v)]"
proof -
  from assms have nk: "\<not> has_key k acc" and before: "\<forall>k' \<in> set (map fst acc). key_before k' k"
    by (auto simp: wf_object_def has_key_def sorted_wrt_append)
  show ?thesis
  proof (cases "array_index k")
    case None
    with nk show ?thesis by (simp add: obj_set_def)
  next
    case (Some n)
    with nk insert_index_append [OF before Some] show ?thesis by (simp add: obj_set_def)
  qed
qed

lemma wf_object_prefix: "wf_object (xs @ ys) \<Longrightarrow> wf_object xs"
  by (auto simp: wf_object_def sorted_wrt_append)

lemma foldl_obj_set_wf:
  "wf_object (acc @ obj) \<Longrightarrow> foldl (\<lambda>acc (k, v). obj_set k v acc) acc obj = acc @ obj"
proof (induction obj arbitrary: acc)
  case Nil
  then show ?case by simp
next
  case (Cons e obj)
  obtain k v where e: "e = (k, v)" by (cases e)
  from Cons.prems have wf': "wf_object ((acc @ [(k, v)]) @ obj)" by (simp add: e)
  then have "obj_set k v acc = acc @ [(k, v)]"
    using obj_set_append wf_object_prefix by blast
  with Cons.IH [OF wf'] show ?case by (simp add: e)
qed

lemma spread_wf_id: "wf_object obj \<Longrightarrow> spread obj = obj"
  using foldl_obj_set_wf [of "[]" obj] by (simp add: spread_def)

lemma wf_obj_delete: "wf_object obj \<Longrightarrow> wf_object (obj_delete k obj)"
proof -
  assume wf: "wf_object obj"
  have m: "map fst (obj_delete k obj) = filter (\<lambda>k'. k' \<noteq> k) (map fst obj)"
    by (induction obj) (auto simp: obj_delete_def)
  from wf show ?thesis
    unfolding wf_object_def m by (simp add: sorted_wrt_filter)
qed

lemma obj_delete_absent: "\<not> has_key k obj \<Longrightarrow> obj_delete k obj = obj"
  by (simp add: obj_delete_def has_key_def filter_absent)

lemma obj_delete_obj_set_new: "\<not> has_key k obj \<Longrightarrow> obj_delete k (obj_set k v obj) = obj"
  by (cases "array_index k") (simp_all add: obj_set_def obj_delete_def has_key_def filter_insert_index filter_absent)

section \<open>The scan finds exactly the tokens\<close>

lemma get_substitution_plain:
  "36 \<notin> set value \<Longrightarrow> get_substitution matched before after value = value"
  by (induction matched before after "value" rule: get_substitution.induct) auto

lemma word_char_not_syntax: "is_word_char c \<Longrightarrow> \<not> is_syntax_char c"
  by (auto simp: is_word_char_def is_syntax_char_def Let_def)

lemma identifier_literal: "list_all is_word_char name \<Longrightarrow> literal_source name"
  by (induction name) (auto simp: literal_source_def word_char_not_syntax)

lemma no_match_nonword:
  assumes "name \<noteq> []" "list_all is_word_char name" "\<not> is_word_char c"
  shows "\<not> matches_at name pre (c # cs)"
proof
  assume "matches_at name pre (c # cs)"
  then have t: "take (length name) (c # cs) = name" by (simp add: matches_at_def)
  from assms(1) obtain d ds where n: "name = d # ds" by (cases name) auto
  with t have "d = c" by simp
  with assms(2,3) n show False by simp
qed

lemma scan_copy_nonword:
  assumes "name \<noteq> []" "list_all is_word_char name"
  shows "list_all (\<lambda>c. \<not> is_word_char c) u \<Longrightarrow>
     replace_scan name value pre (u @ rest) = u @ replace_scan name value (rev u @ pre) rest"
proof (induction u arbitrary: pre)
  case Nil
  then show ?case by simp
next
  case (Cons c u)
  then have nw: "\<not> is_word_char c" and u: "list_all (\<lambda>c. \<not> is_word_char c) u" by simp_all
  have "\<not> matches_at name pre (c # u @ rest)"
    using no_match_nonword [OF assms nw] .
  then have "replace_scan name value pre ((c # u) @ rest) = c # replace_scan name value (c # pre) (u @ rest)"
    by (subst replace_scan.simps) simp
  with Cons.IH [OF u, of "c # pre"] show ?case by simp
qed

lemma scan_copy_inword:
  "word_char_at pre \<Longrightarrow> list_all is_word_char u \<Longrightarrow>
     replace_scan name value pre (u @ rest) = u @ replace_scan name value (rev u @ pre) rest"
proof (induction u arbitrary: pre)
  case Nil
  then show ?case by simp
next
  case (Cons c u)
  then have w: "is_word_char c" and u: "list_all is_word_char u" by simp_all
  have "\<not> matches_at name pre (c # u @ rest)"
    using Cons.prems(1) w by (simp add: matches_at_def is_boundary_def)
  then have "replace_scan name value pre ((c # u) @ rest) = c # replace_scan name value (c # pre) (u @ rest)"
    by (subst replace_scan.simps) simp
  moreover have "word_char_at (c # pre)" using w by simp
  ultimately show ?case using Cons.IH [OF _ u, of "c # pre"] by simp
qed

lemma word_char_at_rev_append:
  "w \<noteq> [] \<Longrightarrow> word_char_at (rev w @ pre) = is_word_char (last w)"
  by (induction w rule: rev_induct) auto

lemma word_char_at_append:
  "w \<noteq> [] \<Longrightarrow> word_char_at (w @ rest) = is_word_char (hd w)"
  by (cases w) auto

lemma word_char_at_dropWhile: "\<not> word_char_at (dropWhile is_word_char s)"
  by (induction s) auto

lemma match_word_run:
  assumes name: "name \<noteq> []" "list_all is_word_char name"
    and pre: "\<not> word_char_at pre"
    and w: "w \<noteq> []" "list_all is_word_char w"
    and rest: "\<not> word_char_at rest"
  shows "matches_at name pre (w @ rest) \<longleftrightarrow> w = name"
proof
  assume eq: "w = name"
  have "is_word_char (hd w)" "is_word_char (last w)"
    using w by (auto simp: list_all_iff)
  then show "matches_at name pre (w @ rest)"
    using pre rest w eq
    by (simp add: matches_at_def is_boundary_def word_char_at_rev_append word_char_at_append hd_rev)
next
  assume m: "matches_at name pre (w @ rest)"
  then have t: "take (length name) (w @ rest) = name"
    and b: "is_boundary (rev name @ pre) (drop (length name) (w @ rest))"
    by (simp_all add: matches_at_def)
  have lastw: "word_char_at (rev name @ pre)"
    using name by (simp add: word_char_at_rev_append list_all_iff)
  consider "length name < length w" | "length name = length w" | "length w < length name"
    by linarith
  then show "w = name"
  proof cases
    case 1
    then have d: "drop (length name) w \<noteq> []" by simp
    have "set (drop (length name) w) \<subseteq> set w" by (rule set_drop_subset)
    with w(2) d have "is_word_char (hd (drop (length name) w))"
      by (metis hd_in_set list_all_iff subsetD)
    with d 1 have "word_char_at (drop (length name) (w @ rest))"
      by (simp add: word_char_at_append)
    with b lastw show ?thesis by (simp add: is_boundary_def)
  next
    case 2
    with t show ?thesis by simp
  next
    case 3
    with t have n: "name = w @ take (length name - length w) rest" by simp
    from 3 n have "take (length name - length w) rest \<noteq> []"
      by (metis append_Nil2 less_irrefl)
    then obtain c cs where r: "rest = c # cs" by (cases rest) auto
    with 3 have "c \<in> set (take (length name - length w) rest)"
      by (cases "length name - length w") auto
    with n have "c \<in> set name" by (metis Un_iff set_append)
    with name(2) have "is_word_char c" by (simp add: list_all_iff)
    with rest r show ?thesis by simp
  qed
qed

lemma scan_word_run:
  assumes name: "name \<noteq> []" "list_all is_word_char name"
    and pre: "\<not> word_char_at pre"
    and w: "w \<noteq> []" "list_all is_word_char w"
    and rest: "\<not> word_char_at rest"
  shows "replace_scan name value pre (w @ rest) =
           (if w = name then get_substitution name (rev pre) rest value else w)
           @ replace_scan name value (rev w @ pre) rest"
proof (cases "w = name")
  case True
  then have "matches_at name pre (name @ rest)"
    using match_word_run [OF name pre w rest] by simp
  then show ?thesis
    using True name(1) by (subst replace_scan.simps) simp
next
  case False
  then have nm: "\<not> matches_at name pre (w @ rest)"
    using match_word_run [OF name pre w rest] by simp
  from w obtain c u where cu: "w = c # u" "is_word_char c" "list_all is_word_char u"
    by (cases w) auto
  have "replace_scan name value pre (w @ rest) = c # replace_scan name value (c # pre) (u @ rest)"
    using nm by (subst replace_scan.simps) (simp add: cu)
  also have "replace_scan name value (c # pre) (u @ rest) = u @ replace_scan name value (rev u @ c # pre) rest"
    using cu by (intro scan_copy_inword) simp_all
  finally show ?thesis using False by (simp add: cu)
qed

lemma scan_nil:
  "name \<noteq> [] \<Longrightarrow> replace_scan name value pre [] = []"
  by (subst replace_scan.simps) (auto simp: matches_at_def)

lemma concat_tokens: "concat (tokens s) = s"
proof (induction s rule: tokens.induct)
  case (1 s)
  show ?case
  proof (cases "s = []")
    case True
    then show ?thesis by (simp add: tokens.simps)
  next
    case ne: False
    show ?thesis
    proof (cases "word_char_at s")
      case True
      with ne "1.IH"(1) show ?thesis by (subst tokens.simps) simp
    next
      case False
      with ne "1.IH"(2) show ?thesis by (subst tokens.simps) simp
    qed
  qed
qed

lemma scan_tokens_at:
  assumes name: "name \<noteq> []" "list_all is_word_char name"
  shows "\<not> (word_char_at pre \<and> word_char_at s) \<Longrightarrow>
     replace_scan name value pre s = replace_tokens_at name value (rev pre) (tokens s)"
proof (induction s arbitrary: pre rule: tokens.induct)
  case (1 s)
  show ?case
  proof (cases "s = []")
    case True
    then show ?thesis
      using name(1) by (simp add: scan_nil tokens.simps)
  next
    case ne: False
    show ?thesis
    proof (cases "word_char_at s")
      case True
      define w where "w = takeWhile is_word_char s"
      define r where "r = dropWhile is_word_char s"
      have s: "s = w @ r" by (simp add: w_def r_def)
      have wne: "w \<noteq> []" using True ne by (cases s) (auto simp: w_def)
      have wall: "list_all is_word_char w"
        by (auto simp: w_def list_all_iff dest: set_takeWhileD)
      have rn: "\<not> word_char_at r"
        by (simp add: r_def word_char_at_dropWhile)
      have pn: "\<not> word_char_at pre" using "1.prems" True by simp
      have ih: "replace_scan name value (rev w @ pre) r
                  = replace_tokens_at name value (rev pre @ w) (tokens r)"
        using "1.IH"(1) [OF ne True, of "rev w @ pre"] rn by (simp add: r_def)
      have tok: "tokens s = w # tokens r"
        using ne True by (subst tokens.simps) (simp add: w_def r_def)
      have "replace_scan name value pre s =
            (if w = name then get_substitution name (rev pre) r value else w)
            @ replace_scan name value (rev w @ pre) r"
        unfolding s using scan_word_run [OF name pn wne wall rn] .
      with ih tok show ?thesis by (simp add: concat_tokens)
    next
      case False
      define u where "u = takeWhile (\<lambda>c. \<not> is_word_char c) s"
      define r where "r = dropWhile (\<lambda>c. \<not> is_word_char c) s"
      have s: "s = u @ r" by (simp add: u_def r_def)
      have une: "u \<noteq> []" using False ne by (cases s) (auto simp: u_def)
      have uall: "list_all (\<lambda>c. \<not> is_word_char c) u"
        by (auto simp: u_def list_all_iff dest: set_takeWhileD)
      have lastu: "\<not> word_char_at (rev u @ pre)"
        using une uall by (simp add: word_char_at_rev_append list_all_iff)
      have diff: "u \<noteq> name"
        using une uall name by (cases u; cases name) auto
      have ih: "replace_scan name value (rev u @ pre) r
                  = replace_tokens_at name value (rev pre @ u) (tokens r)"
        using "1.IH"(2) [OF ne False, of "rev u @ pre"] lastu by (simp add: r_def)
      have tok: "tokens s = u # tokens r"
        using ne False by (subst tokens.simps) (simp add: u_def r_def)
      have "replace_scan name value pre s = u @ replace_scan name value (rev u @ pre) r"
        unfolding s using scan_copy_nonword [OF name uall] .
      with ih tok diff show ?thesis by simp
    qed
  qed
qed

lemma replace_tokens_at_plain:
  "36 \<notin> set value \<Longrightarrow>
   replace_tokens_at name value before ts = concat (map (\<lambda>t. if t = name then value else t) ts)"
  by (induction ts arbitrary: before) (simp_all add: get_substitution_plain)

lemma replace_tokens_at_absent:
  "name \<notin> set ts \<Longrightarrow> replace_tokens_at name value before ts = concat ts"
  by (induction ts arbitrary: before) auto

lemma tokens_identifier:
  assumes "w \<noteq> []" "list_all is_word_char w"
  shows "tokens w = [w]"
proof -
  have nil: "tokens [] = []" by (simp add: tokens.simps)
  from assms have "word_char_at w" by (cases w) auto
  with assms(1) have "tokens w = takeWhile is_word_char w # tokens (dropWhile is_word_char w)"
    by (subst tokens.simps) simp
  moreover from assms(2) have "takeWhile is_word_char w = w" and "dropWhile is_word_char w = []"
    by (simp_all add: list_all_iff)
  ultimately show ?thesis
    by (simp only: nil)
qed

lemma replace_word_identifier:
  assumes "name \<noteq> []" "list_all is_word_char name"
  shows "replace_word rx name value s = Inr (replace_tokens_at name value [] (tokens s))"
  using scan_tokens_at [OF assms, of "[]" s] identifier_literal [OF assms(2)]
  by (simp add: replace_word_def)

lemma replace_word_plain:
  assumes "name \<noteq> []" "list_all is_word_char name" "36 \<notin> set value"
  shows "replace_word rx name value s = Inr (replace_tokens name value s)"
  by (simp add: replace_word_identifier [OF assms(1,2)] replace_tokens_at_plain [OF assms(3)]
      replace_tokens_def)

lemma replace_word_other_identifier:
  assumes "name \<noteq> []" "list_all is_word_char name" "w \<noteq> []" "list_all is_word_char w"
    and "name \<noteq> w"
  shows "replace_word rx name value w = Inr w"
  using assms(5)
  by (simp add: replace_word_identifier [OF assms(1,2)] tokens_identifier [OF assms(3,4)])

lemma replace_word_same_identifier:
  assumes "name \<noteq> []" "list_all is_word_char name" "36 \<notin> set value"
  shows "replace_word rx name value name = Inr value"
  by (simp add: replace_word_plain [OF assms] replace_tokens_def tokens_identifier [OF assms(1,2)])

section \<open>The library in the reachable states\<close>

lemma handleBetaReduce_library:
  "savedExpressions (handleBetaReduce rx reduce s) = savedExpressions s"
  by (simp add: handleBetaReduce_def split: sum.splits)

lemma reachable_wf: "reachable rx reduce s \<Longrightarrow> wf_object (savedExpressions s)"
proof (induction rule: reachable.induct)
  case first_render
  show ?case by (simp add: initial_state_def wf_object_def)
next
  case (by_save s)
  then show ?case
    by (simp add: saveExpression_def wf_obj_set wf_spread)
next
  case (by_delete s name)
  then show ?case
    by (simp add: deleteExpression_def wf_obj_delete wf_spread)
qed (simp_all add: init_succeeded_def init_failed_def handleBetaReduce_library
       applyExpression_def clearHistory_def)

section \<open>The claims\<close>

lemmas scan_eval = replaceNamedExpressions_def object_entries_def replace_word_def
  literal_source_def js_def is_syntax_char_def replace_scan.simps matches_at_def
  is_boundary_def is_word_char_def lambda_sym_def

lemmas object_eval = js_def is_digit_def dec_value_def array_index_def to_decimal.simps
  is_white_space_def trim_def spread_def obj_set_def has_key_def wf_object_def
  key_before_def obj_delete_def lambda_sym_def

lemmas state_eval = ready_state_def init_succeeded_def initial_state_def

lemma identifier_plain: "list_all is_word_char n \<Longrightarrow> 36 \<notin> set n"
  by (auto simp: list_all_iff is_word_char_def)

text \<open>
  Claim C1, as stated, fails. With the library \<open>{a: "b", b: "c"}\<close> in that order and
  the input \<open>a\<close>, the entry \<open>a\<close> turns the working string into \<open>b\<close>, and the entry
  \<open>b\<close>, which comes next, turns it into \<open>c\<close>: the result is \<open>c\<close>, not \<open>b\<close>.
\<close>
theorem expand_later_entry_counterexample:
  "replaceNamedExpressions rejecting_engine [(js ''a'', js ''b''), (js ''b'', js ''c'')] (js ''a'')
     = Inr (js ''c'')
   \<and> replaceNamedExpressions rejecting_engine [(js ''a'', js ''b''), (js ''b'', js ''c'')] (js ''a'')
     \<noteq> Inr (js ''b'')"
  by (simp add: scan_eval)

text \<open>
  Claim C1, amended. For the library \<open>{a: "b", b: "c"}\<close> and the input \<open>a\<close> the result
  is \<open>c\<close>: text inserted for an entry is scanned by the entries after it. It is not
  scanned by the entries before it: for \<open>{b: "c", a: "b"}\<close> and the input \<open>a\<close> the
  result is \<open>b\<close>. In general, for two different names made of word characters that
  the object lists in the order \<open>n1\<close>, \<open>n2\<close> (so \<open>n2\<close> is not an array index, or both are
  and \<open>n1\<close> is the smaller), and a body \<open>v2\<close> without a dollar sign: with
  \<open>{n1: n2, n2: v2}\<close> the input \<open>n1\<close> becomes \<open>v2\<close>, and with \<open>{n1: v1, n2: v2}\<close> the
  input \<open>n2\<close> becomes \<open>v2\<close> and stays so, even where \<open>v2\<close> contains \<open>n1\<close>.
\<close>
theorem expand_in_library_order:
  "replaceNamedExpressions rx [(js ''a'', js ''b''), (js ''b'', js ''c'')] (js ''a'') = Inr (js ''c'')
   \<and> replaceNamedExpressions rx [(js ''b'', js ''c''), (js ''a'', js ''b'')] (js ''a'') = Inr (js ''b'')
   \<and> (n1 \<noteq> [] \<and> list_all is_word_char n1 \<and> n2 \<noteq> [] \<and> list_all is_word_char n2 \<and> n1 \<noteq> n2
        \<and> 36 \<notin> set v2 \<and> wf_object [(n1, n2), (n2, v2)] \<and> wf_object [(n1, v1), (n2, v2)] \<longrightarrow>
        replaceNamedExpressions rx [(n1, n2), (n2, v2)] n1 = Inr v2
        \<and> replaceNamedExpressions rx [(n1, v1), (n2, v2)] n2 = Inr v2)"
proof (intro conjI impI)
  show "replaceNamedExpressions rx [(js ''a'', js ''b''), (js ''b'', js ''c'')] (js ''a'') = Inr (js ''c'')"
    by (simp add: scan_eval)
  show "replaceNamedExpressions rx [(js ''b'', js ''c''), (js ''a'', js ''b'')] (js ''a'') = Inr (js ''b'')"
    by (simp add: scan_eval)
next
  assume h: "n1 \<noteq> [] \<and> list_all is_word_char n1 \<and> n2 \<noteq> [] \<and> list_all is_word_char n2 \<and> n1 \<noteq> n2
        \<and> 36 \<notin> set v2 \<and> wf_object [(n1, n2), (n2, v2)] \<and> wf_object [(n1, v1), (n2, v2)]"
  then have a: "replace_word rx n1 n2 n1 = Inr n2"
    by (simp add: replace_word_same_identifier identifier_plain)
  from h have b: "replace_word rx n2 v2 n2 = Inr v2"
    by (simp add: replace_word_same_identifier)
  from a b show "replaceNamedExpressions rx [(n1, n2), (n2, v2)] n1 = Inr v2"
    by (simp add: replaceNamedExpressions_def object_entries_def)
next
  assume h: "n1 \<noteq> [] \<and> list_all is_word_char n1 \<and> n2 \<noteq> [] \<and> list_all is_word_char n2 \<and> n1 \<noteq> n2
        \<and> 36 \<notin> set v2 \<and> wf_object [(n1, n2), (n2, v2)] \<and> wf_object [(n1, v1), (n2, v2)]"
  then have a: "replace_word rx n1 v1 n2 = Inr n2"
    by (simp add: replace_word_other_identifier)
  from h have b: "replace_word rx n2 v2 n2 = Inr v2"
    by (simp add: replace_word_same_identifier)
  from a b show "replaceNamedExpressions rx [(n1, v1), (n2, v2)] n2 = Inr v2"
    by (simp add: replaceNamedExpressions_def object_entries_def)
qed

theorem expand_in_library_order_witness:
  "replaceNamedExpressions rejecting_engine [(js ''two'', js ''succ''), (js ''succ'', js ''f (n f x)'')] (js ''two'')
     = Inr (js ''f (n f x)'')
   \<and> replaceNamedExpressions rejecting_engine [(js ''two'', js ''succ one''), (js ''succ'', js ''f (n f x)'')] (js ''succ'')
     = Inr (js ''f (n f x)'')"
proof -
  have wf: "wf_object [(js ''two'', js ''succ''), (js ''succ'', js ''f (n f x)'')]
            \<and> wf_object [(js ''two'', js ''succ one''), (js ''succ'', js ''f (n f x)'')]"
    by (simp add: object_eval)
  have names: "js ''two'' \<noteq> [] \<and> list_all is_word_char (js ''two'')
            \<and> js ''succ'' \<noteq> [] \<and> list_all is_word_char (js ''succ'') \<and> js ''two'' \<noteq> js ''succ''
            \<and> 36 \<notin> set (js ''f (n f x)'')"
    by (simp add: js_def is_word_char_def)
  show ?thesis
    using expand_in_library_order [of rejecting_engine "js ''two''" "js ''succ''" "js ''f (n f x)''" "js ''succ one''"]
      wf names
    by blast
qed

text \<open>
  Claim C8, as stated for every entry, fails. The name \<open>-\<close> standing alone between
  the string edges is not replaced, since \<open>\b\<close> needs a word character on one side;
  between two word characters it is replaced.
\<close>
theorem expand_nonword_name_counterexample:
  "replaceNamedExpressions rejecting_engine [(js ''-'', js ''baz'')] (js ''-'') = Inr (js ''-'')
   \<and> replaceNamedExpressions rejecting_engine [(js ''-'', js ''baz'')] (js ''a-b'') = Inr (js ''abazb'')"
  by (simp add: scan_eval)

text \<open>
  Claim C8, amended. For an entry whose name is a non-empty string of the word
  characters a-z, A-Z, 0-9 and _ and whose body has no dollar sign, the step for that
  entry, and so \<open>replaceNamedExpressions\<close> with that entry alone, replaces exactly the
  tokens equal to the name by the body: the occurrences bounded by non-word characters
  or the string edges, and none inside a longer run of word characters. In particular
  \<open>foo bar\<close> becomes \<open>baz bar\<close> and \<open>foobar\<close> stays under \<open>{foo: "baz"}\<close>.
\<close>
theorem expand_whole_tokens:
  "(name \<noteq> [] \<and> list_all is_word_char name \<and> 36 \<notin> set value \<longrightarrow>
      replace_word rx name value s = Inr (replace_tokens name value s)
      \<and> replaceNamedExpressions rx [(name, value)] s = Inr (replace_tokens name value s))
   \<and> replaceNamedExpressions rx [(js ''foo'', js ''baz'')] (js ''foo bar'') = Inr (js ''baz bar'')
   \<and> replaceNamedExpressions rx [(js ''foo'', js ''baz'')] (js ''foobar'') = Inr (js ''foobar'')"
proof (intro conjI impI)
  assume h: "name \<noteq> [] \<and> list_all is_word_char name \<and> 36 \<notin> set value"
  then show w: "replace_word rx name value s = Inr (replace_tokens name value s)"
    by (simp add: replace_word_plain)
  then show "replaceNamedExpressions rx [(name, value)] s = Inr (replace_tokens name value s)"
    by (simp add: replaceNamedExpressions_def object_entries_def)
next
  show "replaceNamedExpressions rx [(js ''foo'', js ''baz'')] (js ''foo bar'') = Inr (js ''baz bar'')"
    by (simp add: scan_eval)
  show "replaceNamedExpressions rx [(js ''foo'', js ''baz'')] (js ''foobar'') = Inr (js ''foobar'')"
    by (simp add: scan_eval)
qed

lemma tokens_example: "tokens (js ''f x_1 (x y)'') = [js ''f'', js '' '', js ''x_1'', js '' ('', js ''x'', js '' '', js ''y'', js '')'']"
  by (simp add: tokens.simps js_def is_word_char_def)

theorem expand_whole_tokens_witness:
  "replaceNamedExpressions rejecting_engine [(js ''x'', js ''(a b)'')] (js ''f x_1 (x y)'')
     = Inr (js ''f x_1 ((a b) y)'')"
  using expand_whole_tokens [of "js ''x''" "js ''(a b)''" rejecting_engine "js ''f x_1 (x y)''"]
  by (simp add: replace_tokens_def tokens_example) (simp add: js_def is_word_char_def)

text \<open>
  Claim C2. When the expansion \<open>x\<close> of the current expression differs from it and the
  oracle returns \<open>x\<close> unchanged, \<open>handleBetaReduce\<close> compares with the unexpanded
  expression, finds a difference, appends the step from the expression to \<open>x\<close> to the
  history, makes \<open>x\<close> the current expression and clears the message.
\<close>
theorem reduce_commits_expansion:
  assumes "replaceNamedExpressions rx (savedExpressions s) (expression s) = Inr x"
    and "x \<noteq> expression s"
    and "reduce x = Inr x"
  shows "handleBetaReduce rx reduce s =
           s\<lparr>history := history s @ [\<lparr>step_from = expression s, step_to = x\<rparr>],
             expression := x, error := None\<rparr>"
  using assms by (simp add: handleBetaReduce_def)

theorem reduce_commits_expansion_witness:
  "handleBetaReduce rejecting_engine no_redex
     (ready_state\<lparr>savedExpressions := [(js ''id'', lambda_sym # js ''x.x'')], expression := js ''id''\<rparr>)
   = ready_state\<lparr>savedExpressions := [(js ''id'', lambda_sym # js ''x.x'')],
       history := [\<lparr>step_from = js ''id'', step_to = lambda_sym # js ''x.x''\<rparr>],
       expression := lambda_sym # js ''x.x'', error := None\<rparr>"
proof -
  let ?s = "ready_state\<lparr>savedExpressions := [(js ''id'', lambda_sym # js ''x.x'')], expression := js ''id''\<rparr>"
  have e: "replaceNamedExpressions rejecting_engine (savedExpressions ?s) (expression ?s)
             = Inr (lambda_sym # js ''x.x'')"
    by (simp add: scan_eval)
  have d: "lambda_sym # js ''x.x'' \<noteq> expression ?s"
    by (simp add: js_def lambda_sym_def)
  have r: "no_redex (lambda_sym # js ''x.x'') = Inr (lambda_sym # js ''x.x'')"
    by (simp add: no_redex_def)
  show ?thesis
    using reduce_commits_expansion [where reduce = no_redex, OF e d r] by (simp add: state_eval)
qed

text \<open>
  Claim C3. When the oracle returns a string \<open>r\<close> other than the current expression,
  the history afterwards is the old history followed by the one step from the old
  expression to \<open>r\<close>, and the current expression is \<open>r\<close>.
\<close>
theorem reduce_progress_appends:
  assumes "replaceNamedExpressions rx (savedExpressions s) (expression s) = Inr x"
    and "reduce x = Inr r"
    and "r \<noteq> expression s"
  shows "history (handleBetaReduce rx reduce s)
           = history s @ [\<lparr>step_from = expression s, step_to = r\<rparr>]
         \<and> length (history (handleBetaReduce rx reduce s)) = Suc (length (history s))
         \<and> take (length (history s)) (history (handleBetaReduce rx reduce s)) = history s
         \<and> expression (handleBetaReduce rx reduce s) = r"
  using assms by (simp add: handleBetaReduce_def)

theorem reduce_progress_appends_witness:
  "history (handleBetaReduce rejecting_engine answers_y ready_state)
     = [\<lparr>step_from = js ''('' @ [lambda_sym] @ js ''x.x) y'', step_to = js ''y''\<rparr>]
   \<and> expression (handleBetaReduce rejecting_engine answers_y ready_state) = js ''y''"
proof -
  have e: "replaceNamedExpressions rejecting_engine (savedExpressions ready_state) (expression ready_state)
             = Inr (expression ready_state)"
    by (simp add: replaceNamedExpressions_def object_entries_def state_eval)
  have r: "answers_y (expression ready_state) = Inr (js ''y'')"
    by (simp add: answers_y_def)
  have d: "js ''y'' \<noteq> expression ready_state"
    by (simp add: state_eval js_def)
  show ?thesis
    using reduce_progress_appends [where reduce = answers_y, OF e r d] by (simp add: state_eval)
qed

text \<open>
  Claim C4. When the oracle's answer for the expanded text equals the current,
  unexpanded expression, nothing changes but the message slot, which then holds
  \<open>No further reduction possible.\<close>: history and expression are as before.
\<close>
theorem reduce_no_progress:
  assumes "replaceNamedExpressions rx (savedExpressions s) (expression s) = Inr x"
    and "reduce x = Inr (expression s)"
  shows "handleBetaReduce rx reduce s = s\<lparr>error := Some (js ''No further reduction possible.'')\<rparr>
         \<and> history (handleBetaReduce rx reduce s) = history s
         \<and> length (history (handleBetaReduce rx reduce s)) = length (history s)
         \<and> expression (handleBetaReduce rx reduce s) = expression s
         \<and> error (handleBetaReduce rx reduce s) = Some (js ''No further reduction possible.'')"
  using assms by (simp add: handleBetaReduce_def)

theorem reduce_no_progress_witness:
  "handleBetaReduce rejecting_engine answers_y (ready_state\<lparr>expression := js ''y''\<rparr>)
     = ready_state\<lparr>expression := js ''y'', error := Some (js ''No further reduction possible.'')\<rparr>"
proof -
  let ?s = "ready_state\<lparr>expression := js ''y''\<rparr>"
  have e: "replaceNamedExpressions rejecting_engine (savedExpressions ?s) (expression ?s) = Inr (js ''y'')"
    by (simp add: replaceNamedExpressions_def object_entries_def state_eval)
  have r: "answers_y (js ''y'') = Inr (expression ?s)"
    by (simp add: answers_y_def)
  show ?thesis
    using reduce_no_progress [where reduce = answers_y, OF e r] by (simp add: state_eval)
qed

text \<open>
  Claim C5. When the oracle throws, the message slot holds \<open>Error: \<close> followed by the
  thrown value, and the expression, the history and the library are as before.
\<close>
theorem reduce_oracle_failure:
  assumes "replaceNamedExpressions rx (savedExpressions s) (expression s) = Inr x"
    and "reduce x = Inl err"
  shows "handleBetaReduce rx reduce s = s\<lparr>error := Some (js ''Error: '' @ to_string err)\<rparr>
         \<and> error (handleBetaReduce rx reduce s) = Some (js ''Error: '' @ to_string err)
         \<and> expression (handleBetaReduce rx reduce s) = expression s
         \<and> history (handleBetaReduce rx reduce s) = history s
         \<and> savedExpressions (handleBetaReduce rx reduce s) = savedExpressions s"
  using assms by (simp add: handleBetaReduce_def)

theorem reduce_oracle_failure_witness:
  "handleBetaReduce rejecting_engine throwing_oracle ready_state
     = ready_state\<lparr>error := Some (js ''Error: unreachable'')\<rparr>"
proof -
  have e: "replaceNamedExpressions rejecting_engine (savedExpressions ready_state) (expression ready_state)
             = Inr (expression ready_state)"
    by (simp add: replaceNamedExpressions_def object_entries_def state_eval)
  have r: "throwing_oracle (expression ready_state) = Inl (Thrown (js ''unreachable''))"
    by (simp add: throwing_oracle_def)
  show ?thesis
    using reduce_oracle_failure [where reduce = throwing_oracle, OF e r] by (simp add: js_def)
qed

text \<open>
  Claim C6, as stated for every library, fails. When the library already has an entry
  \<open>id\<close>, saving overwrites it and deleting removes it: the earlier entry is gone.
\<close>
theorem save_delete_existing_counterexample:
  "savedExpressions (deleteExpression (js ''id'')
      (saveExpression (ready_state\<lparr>savedExpressions := [(js ''id'', js ''y'')],
         newExpressionName := js ''id'', newExpressionValue := lambda_sym # js ''x.x''\<rparr>)))
   \<noteq> [(js ''id'', js ''y'')]"
  by (simp add: saveExpression_def deleteExpression_def state_eval object_eval)

text \<open>
  Claim C6, amended. For a library that has no entry under the trimmed name, saving a
  name and a body (both non-empty after trimming, as \<open>id\<close> and \<open>\<lambda>x.x\<close> are) and then
  deleting that name gives back the library as it was, entry by entry and in the same
  order.
\<close>
theorem save_then_delete_restores:
  assumes "wf_object (savedExpressions s)"
    and "trim name \<noteq> []" and "trim body \<noteq> []"
    and "\<not> has_key (trim name) (savedExpressions s)"
  shows "savedExpressions (deleteExpression (trim name)
           (saveExpression (s\<lparr>newExpressionName := name, newExpressionValue := body\<rparr>)))
         = savedExpressions s"
proof -
  let ?lib = "savedExpressions s"
  have "wf_object (obj_set (trim name) (trim body) ?lib)"
    using assms(1) by (rule wf_obj_set)
  then show ?thesis
    using assms by (simp add: saveExpression_def deleteExpression_def spread_wf_id obj_delete_obj_set_new)
qed

theorem save_then_delete_restores_witness:
  "savedExpressions (deleteExpression (js ''id'')
      (saveExpression (ready_state\<lparr>savedExpressions := [(js ''1'', js ''f x''), (js ''K'', js ''a'')],
         newExpressionName := js ''id'', newExpressionValue := lambda_sym # js ''x.x''\<rparr>)))
   = [(js ''1'', js ''f x''), (js ''K'', js ''a'')]"
proof -
  let ?s = "ready_state\<lparr>savedExpressions := [(js ''1'', js ''f x''), (js ''K'', js ''a'')]\<rparr>"
  have w: "wf_object (savedExpressions ?s)"
    by (simp add: object_eval)
  have n: "trim (js ''id'') \<noteq> []" and b: "trim (lambda_sym # js ''x.x'') \<noteq> []"
    by (simp_all add: object_eval)
  have k: "\<not> has_key (trim (js ''id'')) (savedExpressions ?s)"
    by (simp add: object_eval)
  have t: "trim (js ''id'') = js ''id''"
    by (simp add: object_eval)
  show ?thesis
    using save_then_delete_restores [OF w n b k] by (simp add: t)
qed

text \<open>
  Claim C7, as stated, fails. A new name that is an array index, such as \<open>1\<close>, is not
  appended: the object lists it before every name that is not an array index.
\<close>
theorem save_numeric_name_counterexample:
  "savedExpressions (saveExpression (ready_state\<lparr>savedExpressions := [(js ''a'', js ''x'')],
      newExpressionName := js ''1'', newExpressionValue := js ''y''\<rparr>))
     = [(js ''1'', js ''y''), (js ''a'', js ''x'')]
   \<and> savedExpressions (saveExpression (ready_state\<lparr>savedExpressions := [(js ''a'', js ''x'')],
      newExpressionName := js ''1'', newExpressionValue := js ''y''\<rparr>))
     \<noteq> [(js ''a'', js ''x''), (js ''1'', js ''y'')]"
  by (simp add: saveExpression_def state_eval object_eval)

text \<open>
  Claim C7, amended. For a save with non-empty trimmed name and body: a name that is
  in the library keeps its place and gets the new body; a new name that is not an array
  index is appended at the end; a new name that is an array index is placed after the
  array indices below it and before all other entries. After the save no name occurs
  twice, and save and delete keep the library an object's list of entries (array
  indices first and ascending, the other names in the order of their creation), a
  delete leaving the other entries in their order; so it is in every reachable state,
  where no name occurs twice.
\<close>
theorem save_upserts_in_key_order:
  fixes s :: app_state
  defines "lib \<equiv> savedExpressions s"
    and "name' \<equiv> trim (newExpressionName s)"
    and "body' \<equiv> trim (newExpressionValue s)"
    and "lib' \<equiv> savedExpressions (saveExpression s)"
  assumes wf: "wf_object lib" and n: "name' \<noteq> []" and b: "body' \<noteq> []"
  shows "(has_key name' lib \<longrightarrow>
            lib' = map (\<lambda>(k, v). if k = name' then (k, body') else (k, v)) lib
            \<and> map fst lib' = map fst lib)
       \<and> (\<not> has_key name' lib \<and> array_index name' = None \<longrightarrow> lib' = lib @ [(name', body')])
       \<and> (\<not> has_key name' lib \<and> array_index name' = Some i \<longrightarrow>
            lib' = takeWhile (\<lambda>(k, v). case array_index k of Some m \<Rightarrow> m < i | None \<Rightarrow> False) lib
                   @ (name', body')
                   # dropWhile (\<lambda>(k, v). case array_index k of Some m \<Rightarrow> m < i | None \<Rightarrow> False) lib)
       \<and> distinct (map fst lib') \<and> wf_object lib'
       \<and> wf_object (savedExpressions (deleteExpression k s))
       \<and> savedExpressions (deleteExpression k s) = filter (\<lambda>(k', v). k' \<noteq> k) lib
       \<and> (reachable rx reduce t \<longrightarrow>
            wf_object (savedExpressions t) \<and> distinct (map fst (savedExpressions t)))"
proof -
  have lib': "lib' = obj_set name' body' lib"
    using wf n b by (simp add: lib'_def lib_def name'_def body'_def saveExpression_def spread_wf_id)
  have wf': "wf_object lib'"
    unfolding lib' using wf by (rule wf_obj_set)
  have del: "wf_object (savedExpressions (deleteExpression k s))"
    using wf by (simp add: deleteExpression_def lib_def spread_wf_id wf_obj_delete)
  have upd: "has_key name' lib \<longrightarrow>
            lib' = map (\<lambda>(k, v). if k = name' then (k, body') else (k, v)) lib
            \<and> map fst lib' = map fst lib"
    by (simp add: lib' obj_set_def fst_update)
  have app: "\<not> has_key name' lib \<and> array_index name' = None \<longrightarrow> lib' = lib @ [(name', body')]"
    by (simp add: lib' obj_set_def)
  have ins: "\<not> has_key name' lib \<and> array_index name' = Some i \<longrightarrow>
            lib' = takeWhile (\<lambda>(k, v). case array_index k of Some m \<Rightarrow> m < i | None \<Rightarrow> False) lib
                   @ (name', body')
                   # dropWhile (\<lambda>(k, v). case array_index k of Some m \<Rightarrow> m < i | None \<Rightarrow> False) lib"
    by (simp add: lib' obj_set_def insert_index_split)
  have inv: "reachable rx reduce t \<longrightarrow>
            wf_object (savedExpressions t) \<and> distinct (map fst (savedExpressions t))"
    using reachable_wf [of rx reduce t] by (simp add: wf_object_def)
  have delf: "savedExpressions (deleteExpression k s) = filter (\<lambda>(k', v). k' \<noteq> k) lib"
    using wf by (simp add: deleteExpression_def lib_def spread_wf_id obj_delete_def)
  from wf' have "distinct (map fst lib')" by (simp add: wf_object_def)
  with upd app ins wf' del delf inv show ?thesis by blast
qed

theorem save_upserts_in_key_order_witness:
  "savedExpressions (saveExpression (ready_state\<lparr>savedExpressions :=
        [(js ''1'', js ''f x''), (js ''K'', js ''a''), (js ''S'', js ''b'')],
      newExpressionName := js '' K '', newExpressionValue := js ''q''\<rparr>))
     = [(js ''1'', js ''f x''), (js ''K'', js ''q''), (js ''S'', js ''b'')]
   \<and> savedExpressions (saveExpression (ready_state\<lparr>savedExpressions :=
        [(js ''1'', js ''f x''), (js ''K'', js ''a''), (js ''S'', js ''b'')],
      newExpressionName := js ''id'', newExpressionValue := js ''q''\<rparr>))
     = [(js ''1'', js ''f x''), (js ''K'', js ''a''), (js ''S'', js ''b''), (js ''id'', js ''q'')]
   \<and> savedExpressions (saveExpression (ready_state\<lparr>savedExpressions :=
        [(js ''1'', js ''f x''), (js ''K'', js ''a''), (js ''S'', js ''b'')],
      newExpressionName := js ''2'', newExpressionValue := js ''q''\<rparr>))
     = [(js ''1'', js ''f x''), (js ''2'', js ''q''), (js ''K'', js ''a''), (js ''S'', js ''b'')]
   \<and> reachable rejecting_engine no_redex
       (saveExpression (ready_state\<lparr>newExpressionName := js ''K'', newExpressionValue := js ''a''\<rparr>))
   \<and> distinct (map fst (savedExpressions
       (saveExpression (ready_state\<lparr>newExpressionName := js ''K'', newExpressionValue := js ''a''\<rparr>))))"
proof -
  let ?lib = "[(js ''1'', js ''f x''), (js ''K'', js ''a''), (js ''S'', js ''b'')]"
  let ?s = "\<lambda>nm. ready_state\<lparr>savedExpressions := ?lib,
      newExpressionName := nm, newExpressionValue := js ''q''\<rparr>"
  have wf: "wf_object (savedExpressions (?s nm))" for nm
    by (simp add: object_eval)
  have b: "trim (newExpressionValue (?s nm)) \<noteq> []" for nm
    by (simp add: object_eval)
  have n1: "trim (newExpressionName (?s (js '' K ''))) \<noteq> []"
    and n2: "trim (newExpressionName (?s (js ''id''))) \<noteq> []"
    and n3: "trim (newExpressionName (?s (js ''2''))) \<noteq> []"
    by (simp_all add: object_eval)
  have "savedExpressions (saveExpression (?s (js '' K '')))
          = [(js ''1'', js ''f x''), (js ''K'', js ''q''), (js ''S'', js ''b'')]"
    using save_upserts_in_key_order [OF wf n1 b] by (simp add: object_eval)
  moreover have "savedExpressions (saveExpression (?s (js ''id'')))
          = [(js ''1'', js ''f x''), (js ''K'', js ''a''), (js ''S'', js ''b''), (js ''id'', js ''q'')]"
    using save_upserts_in_key_order [OF wf n2 b] by (simp add: object_eval)
  moreover have "savedExpressions (saveExpression (?s (js ''2'')))
          = [(js ''1'', js ''f x''), (js ''2'', js ''q''), (js ''K'', js ''a''), (js ''S'', js ''b'')]"
    using save_upserts_in_key_order [OF wf n3 b, of 2] by (simp add: object_eval)
  moreover have r: "reachable rejecting_engine no_redex
       (saveExpression (ready_state\<lparr>newExpressionName := js ''K'', newExpressionValue := js ''a''\<rparr>))"
    unfolding ready_state_def
    by (rule by_save, rule type_value, rule type_name, rule wasm_ready, rule first_render)
  moreover have "distinct (map fst (savedExpressions
       (saveExpression (ready_state\<lparr>newExpressionName := js ''K'', newExpressionValue := js ''a''\<rparr>))))"
    using save_upserts_in_key_order [OF wf n3 b, where rx = rejecting_engine and reduce = no_redex] r
    by blast
  ultimately show ?thesis by simp
qed

text \<open>
  Claim C9, as stated, fails. A save with empty fields puts its message into the slot;
  a delete after it succeeds and the message is still there.
\<close>
theorem delete_keeps_stale_message_counterexample:
  "error (deleteExpression (js ''id'') (saveExpression ready_state))
     = Some (js ''Both name and expression are required'')"
  by (simp add: saveExpression_def deleteExpression_def state_eval trim_def)

text \<open>
  Claim C9, amended. The state has one message slot. A save that passes validation and
  a reduce that makes progress empty the slot; \<open>deleteExpression\<close>,
  \<open>applyExpression\<close> and \<open>clearHistory\<close> leave the slot as it is.
\<close>
theorem message_slot:
  "(trim (newExpressionName s) \<noteq> [] \<and> trim (newExpressionValue s) \<noteq> [] \<longrightarrow>
      error (saveExpression s) = None)
   \<and> (replaceNamedExpressions rx (savedExpressions s) (expression s) = Inr x
        \<and> reduce x = Inr r \<and> r \<noteq> expression s \<longrightarrow>
      error (handleBetaReduce rx reduce s) = None)
   \<and> error (deleteExpression name s) = error s
   \<and> error (applyExpression expr s) = error s
   \<and> error (clearHistory s) = error s"
  by (simp add: saveExpression_def handleBetaReduce_def deleteExpression_def
      applyExpression_def clearHistory_def)

theorem message_slot_witness:
  "error (saveExpression (ready_state\<lparr>error := Some (js ''No further reduction possible.''),
      newExpressionName := js ''id'', newExpressionValue := lambda_sym # js ''x.x''\<rparr>)) = None
   \<and> error (handleBetaReduce rejecting_engine answers_y
        (ready_state\<lparr>error := Some (js ''No further reduction possible.''),
      newExpressionName := js ''id'', newExpressionValue := lambda_sym # js ''x.x''\<rparr>)) = None"
proof -
  let ?s = "ready_state\<lparr>error := Some (js ''No further reduction possible.''),
      newExpressionName := js ''id'', newExpressionValue := lambda_sym # js ''x.x''\<rparr>"
  have n: "trim (newExpressionName ?s) \<noteq> [] \<and> trim (newExpressionValue ?s) \<noteq> []"
    by (simp add: object_eval)
  have e: "replaceNamedExpressions rejecting_engine (savedExpressions ?s) (expression ?s)
             = Inr (expression ?s)"
    by (simp add: replaceNamedExpressions_def object_entries_def state_eval)
  have r: "answers_y (expression ?s) = Inr (js ''y'') \<and> js ''y'' \<noteq> expression ?s"
    by (simp add: answers_y_def state_eval js_def)
  show ?thesis
    using message_slot [of ?s rejecting_engine "expression ?s" answers_y "js ''y''"] n e r
    by simp
qed

text \<open>
  Claim C10. \<open>deleteExpression\<close> removes the entry with the given name and nothing
  else: the other entries keep their bodies and their order, and the expression, the
  history and the message slot are as before, whether or not the name was there.
\<close>
theorem delete_frame:
  assumes "wf_object (savedExpressions s)"
  shows "savedExpressions (deleteExpression name s)
           = filter (\<lambda>(k, v). k \<noteq> name) (savedExpressions s)
         \<and> expression (deleteExpression name s) = expression s
         \<and> history (deleteExpression name s) = history s
         \<and> error (deleteExpression name s) = error s
         \<and> deleteExpression name s
             = s\<lparr>savedExpressions := filter (\<lambda>(k, v). k \<noteq> name) (savedExpressions s)\<rparr>"
  using assms by (simp add: deleteExpression_def spread_wf_id obj_delete_def)

theorem delete_frame_witness:
  "deleteExpression (js ''K'')
     (ready_state\<lparr>savedExpressions := [(js ''1'', js ''f x''), (js ''K'', js ''a''), (js ''S'', js ''b'')],
        error := Some (js ''No further reduction possible.'')\<rparr>)
   = ready_state\<lparr>savedExpressions := [(js ''1'', js ''f x''), (js ''S'', js ''b'')],
        error := Some (js ''No further reduction possible.'')\<rparr>"
proof -
  let ?s = "ready_state\<lparr>savedExpressions := [(js ''1'', js ''f x''), (js ''K'', js ''a''), (js ''S'', js ''b'')],
        error := Some (js ''No further reduction possible.'')\<rparr>"
  have wf: "wf_object (savedExpressions ?s)"
    by (simp add: object_eval)
  show ?thesis
    using delete_frame [OF wf, of "js ''K''"] by (simp add: js_def)
qed

end
